theory Spec2Isabelle
  imports Main "HOL-Library.Multiset" "HOL-Library.AList"
begin

section \<open>Data model of \<open>evaluate\<close> (\<open>lmms_eval/evaluator.py\<close>)\<close>

text \<open>Exceptions the modelled code can raise, as values.\<close>

datatype error =
    ValueError string
  | IndexError
  | KeyError string
  | AttributeError string
  | UnboundLocalError string
  | NameError string

text \<open>
  An \<open>Instance\<close>: the fields \<open>evaluate\<close> reads and writes. Instances are shared mutable
  objects: the lists \<open>requests[reqtype]\<close>, \<open>cloned_reqs\<close> and \<open>task.instances\<close> hold
  references to them. The model keeps the objects in a store (a list) and a reference is
  an index into it.
\<close>

record 'r Instance =
  request_type :: string
  doc_id :: nat
  idx :: int
  repeats :: int
  resps :: "'r list"
  filtered_resps :: "(string \<times> 'r) list"

type_synonym 'r store = "'r Instance list"

text \<open>
  What \<open>evaluate\<close> uses of a task (through \<open>task_output.task\<close>) on one rank:
  \<open>metric_fn_list\<close> are the keys of \<open>_metric_fn_list\<close> (\<open>None\<close>: the attribute
  is absent, and \<open>getattr\<close> gives \<open>{}\<close>); \<open>instances\<close> are the references that
  \<open>build_all_requests\<close> left in \<open>task.instances\<close>; \<open>gathered_item\<close> is what
  \<open>lm.accelerator.gather\<close> returns at line 407, the value of \<open>len(task._instances)\<close>
  on every rank, in rank order.
\<close>

record task =
  task_name :: string
  OUTPUT_TYPE :: string
  metric_fn_list :: "string list option"
  instances :: "nat list"
  gathered_item :: "int list"

text \<open>
  The backend \<open>lm\<close>: \<open>capability reqtype\<close> is \<open>getattr(lm, reqtype)\<close> (\<open>None\<close>: no such
  attribute), a function from the submitted requests to the list of responses.
\<close>

record 'r lm =
  rank :: nat
  world_size :: nat
  capability :: "string \<Rightarrow> ('r Instance list \<Rightarrow> 'r list) option"

text \<open>A Python \<open>dict\<close> in insertion order: \<open>d[k].append(v)\<close> on a \<open>defaultdict(list)\<close>.\<close>

definition dict_append :: "('k \<times> 'v list) list \<Rightarrow> 'k \<Rightarrow> 'v \<Rightarrow> ('k \<times> 'v list) list" where
  "dict_append d k v =
     (case map_of d k of
        None \<Rightarrow> d @ [(k, [v])]
      | Some vs \<Rightarrow> AList.update k (vs @ [v]) d)"

section \<open>The \<open>bypass\<close> check (lines 347-349)\<close>

definition metric_fn_keys :: "task \<Rightarrow> string list" where
  "metric_fn_keys t = (case metric_fn_list t of None \<Rightarrow> [] | Some ks \<Rightarrow> ks)"

definition bypass_check :: "bool \<Rightarrow> task list \<Rightarrow> error + unit" where
  "bypass_check log_samples eval_tasks =
     (if \<not> log_samples then
        (if \<not> list_all (\<lambda>t. ''bypass'' \<notin> set (metric_fn_keys t)) eval_tasks
         then Inl (ValueError ''log_samples must be True for 'bypass' metric-only tasks'')
         else Inr ())
      else Inr ())"

section \<open>The padding ledger (lines 401-413)\<close>

text \<open>
  \<open>padding_requests\<close> is a \<open>defaultdict(int)\<close>: a total function with default 0.
  Line 409: a \<open>multiple_choice\<close> task counts as \<open>loglikelihood\<close>.
\<close>

type_synonym padding_requests = "string \<Rightarrow> int"

definition reqtype_of :: "task \<Rightarrow> string" where
  "reqtype_of t = (if OUTPUT_TYPE t = ''multiple_choice'' then ''loglikelihood'' else OUTPUT_TYPE t)"

text \<open>Line 411: \<open>numpad = max(gathered_item) - gathered_item[lm.rank]\<close>.\<close>

definition numpad :: "int list \<Rightarrow> nat \<Rightarrow> error + int" where
  "numpad gathered r =
     (if gathered = [] then Inl (ValueError ''max() arg is an empty sequence'')
      else if r < length gathered then Inr (Max (set gathered) - gathered ! r)
      else Inl IndexError)"

text \<open>Lines 405-413 for one task: nothing happens on a single worker.\<close>

definition pad_task :: "nat \<Rightarrow> nat \<Rightarrow> task \<Rightarrow> padding_requests \<Rightarrow> error + padding_requests" where
  "pad_task ws r t p =
     (if ws > 1 then
        (case numpad (gathered_item t) r of
           Inl e \<Rightarrow> Inl e
         | Inr n \<Rightarrow> Inr (p(reqtype_of t := p (reqtype_of t) + n)))
      else Inr p)"

fun build_padding :: "nat \<Rightarrow> nat \<Rightarrow> task list \<Rightarrow> padding_requests \<Rightarrow> error + padding_requests" where
  "build_padding ws r [] p = Inr p"
| "build_padding ws r (t # ts) p =
     (case pad_task ws r t p of Inl e \<Rightarrow> Inl e | Inr p' \<Rightarrow> build_padding ws r ts p')"

text \<open>The ledger entry of one request type after all tasks were built, on rank \<open>r\<close>.\<close>

definition padding_entry :: "nat \<Rightarrow> nat \<Rightarrow> task list \<Rightarrow> string \<Rightarrow> error + int" where
  "padding_entry ws r ts reqtype =
     (case build_padding ws r ts (\<lambda>_. 0) of Inl e \<Rightarrow> Inl e | Inr p \<Rightarrow> Inr (p reqtype))"

text \<open>
  The number of instances rank \<open>r\<close> reported for a request type, over all tasks that are
  counted under it, and the list of these counts for ranks \<open>0..<ws\<close>.
\<close>

definition local_count :: "task list \<Rightarrow> nat \<Rightarrow> string \<Rightarrow> int" where
  "local_count ts r reqtype = sum_list (map (\<lambda>t. gathered_item t ! r) (filter (\<lambda>t. reqtype_of t = reqtype) ts))"

definition local_counts :: "task list \<Rightarrow> string \<Rightarrow> nat \<Rightarrow> int list" where
  "local_counts ts reqtype ws = map (\<lambda>r. local_count ts r reqtype) [0..<ws]"

text \<open>The sum over the tasks of a request type of the largest count any rank reported.\<close>

definition max_total :: "task list \<Rightarrow> string \<Rightarrow> int" where
  "max_total ts reqtype = sum_list (map (\<lambda>t. Max (set (gathered_item t))) (filter (\<lambda>t. reqtype_of t = reqtype) ts))"

text \<open>Every task carries one gathered count per rank.\<close>

definition gathered_ok :: "nat \<Rightarrow> task list \<Rightarrow> bool" where
  "gathered_ok ws ts = list_all (\<lambda>t. length (gathered_item t) = ws) ts"

section \<open>Request dispatch (lines 401-403 and 417-436)\<close>

text \<open>Lines 401-403: \<open>requests[instance.request_type].append(instance)\<close> for every instance of a task.\<close>

definition add_requests :: "'r store \<Rightarrow> nat list \<Rightarrow> (string \<times> nat list) list \<Rightarrow> (string \<times> nat list) list" where
  "add_requests store refs requests = fold (\<lambda>i d. dict_append d (request_type (store ! i)) i) refs requests"

text \<open>Lines 420-422: \<open>K = req.repeats\<close> copies of each request; \<open>[req] * K\<close> is empty for \<open>K \<le> 0\<close>.\<close>

definition clone_reqs :: "'r store \<Rightarrow> nat list \<Rightarrow> nat list" where
  "clone_reqs store reqs = concat (map (\<lambda>i. replicate (nat (repeats (store ! i))) i) reqs)"

text \<open>
  Lines 424-426: the padding copies. \<open>req\<close> is the loop variable of line 421 after its loop:
  the last request of the group. (\<open>requests\<close> gets a key only when an instance is appended,
  so a group is never empty; an empty one would leave \<open>req\<close> unbound.)
\<close>

definition padding_copies :: "'r store \<Rightarrow> nat list \<Rightarrow> nat \<Rightarrow> int \<Rightarrow> error + nat list" where
  "padding_copies store reqs ws padding =
     (if ws > 1 \<and> padding > 0 then
        (if reqs = [] then Inl (UnboundLocalError ''req'')
         else Inr (concat (replicate (nat padding) (replicate (nat (repeats (store ! last reqs))) (last reqs)))))
      else Inr [])"

text \<open>Lines 432-433: \<open>for x, req in zip(resps, cloned_reqs): req.resps.append(x)\<close>.\<close>

fun write_back :: "'r list \<Rightarrow> nat list \<Rightarrow> 'r store \<Rightarrow> 'r store" where
  "write_back (x # xs) (i # rs) store =
     write_back xs rs (store[i := (store ! i)\<lparr>resps := resps (store ! i) @ [x]\<rparr>])"
| "write_back _ _ store = store"

text \<open>Lines 417-433 for one request type: the submitted copies, and the store afterwards.\<close>

definition cloned_reqs :: "'r store \<Rightarrow> nat list \<Rightarrow> nat \<Rightarrow> int \<Rightarrow> error + nat list" where
  "cloned_reqs store reqs ws padding =
     (case padding_copies store reqs ws padding of
        Inl e \<Rightarrow> Inl e
      | Inr extra \<Rightarrow> Inr (clone_reqs store reqs @ extra))"

definition dispatch_group :: "'r lm \<Rightarrow> padding_requests \<Rightarrow> string \<times> nat list \<Rightarrow> 'r store \<Rightarrow> error + 'r store" where
  "dispatch_group l padding rq store =
     (case cloned_reqs store (snd rq) (world_size l) (padding (fst rq)) of
        Inl e \<Rightarrow> Inl e
      | Inr cloned \<Rightarrow>
          (case capability l (fst rq) of
             None \<Rightarrow> Inl (AttributeError (fst rq))
           | Some f \<Rightarrow> Inr (write_back (f (map (\<lambda>i. store ! i) cloned)) cloned store)))"

text \<open>
  The loop of line 417 over \<open>requests.items()\<close>. The first component logs the backend calls
  made so far: the request type and the number of submitted copies.
\<close>

fun run_requests :: "'r lm \<Rightarrow> padding_requests \<Rightarrow> (string \<times> nat list) list \<Rightarrow> (string \<times> nat) list \<Rightarrow> 'r store
    \<Rightarrow> (string \<times> nat) list \<times> (error + 'r store)" where
  "run_requests l padding [] calls store = (calls, Inr store)"
| "run_requests l padding (rq # rqs) calls store =
     (case cloned_reqs store (snd rq) (world_size l) (padding (fst rq)) of
        Inl e \<Rightarrow> (calls, Inl e)
      | Inr cloned \<Rightarrow>
          (case dispatch_group l padding rq store of
             Inl e \<Rightarrow> (calls, Inl e)
           | Inr store' \<Rightarrow> run_requests l padding rqs (calls @ [(fst rq, length cloned)]) store'))"

text \<open>
  \<open>evaluate\<close> from line 344 to line 436: the \<open>bypass\<close> check, the per-task loop (grouping the
  instances by request type and filling the padding ledger), then the dispatch loop.
\<close>

fun build_tasks :: "'r lm \<Rightarrow> 'r store \<Rightarrow> task list \<Rightarrow> (string \<times> nat list) list \<times> padding_requests
    \<Rightarrow> error + ((string \<times> nat list) list \<times> padding_requests)" where
  "build_tasks l store [] rp = Inr rp"
| "build_tasks l store (t # ts) rp =
     (let requests = add_requests store (instances t) (fst rp) in
      case pad_task (world_size l) (rank l) t (snd rp) of
        Inl e \<Rightarrow> Inl e
      | Inr p' \<Rightarrow> build_tasks l store ts (requests, p'))"

definition evaluate_dispatch :: "'r lm \<Rightarrow> bool \<Rightarrow> task list \<Rightarrow> 'r store \<Rightarrow> (string \<times> nat) list \<times> (error + 'r store)" where
  "evaluate_dispatch l log_samples eval_tasks store =
     (case bypass_check log_samples eval_tasks of
        Inl e \<Rightarrow> ([], Inl e)
      | Inr _ \<Rightarrow>
          (case build_tasks l store eval_tasks ([], \<lambda>_. 0) of
             Inl e \<Rightarrow> ([], Inl e)
           | Inr rp \<Rightarrow> run_requests l (snd rp) (fst rp) [] store))"

section \<open>Document sharding (lines 476-483)\<close>

text \<open>
  \<open>itertools.islice(it, start, stop, step)\<close> walks the iterable once, counting positions
  from 0, and yields the items at positions \<open>start, start + step, \<dots>\<close> below \<open>stop\<close>
  (\<open>stop = None\<close>: to the end). \<open>islice_aux step nxt i xs\<close> is that walk: \<open>i\<close> is the
  position of the head of \<open>xs\<close>, \<open>nxt\<close> the next position to yield. A step below 1 is a
  \<open>ValueError\<close>.
\<close>

fun islice_aux :: "nat \<Rightarrow> nat \<Rightarrow> nat \<Rightarrow> 'a list \<Rightarrow> 'a list" where
  "islice_aux step nxt i [] = []"
| "islice_aux step nxt i (x # xs) =
     (if i = nxt then x # islice_aux step (nxt + step) (Suc i) xs
      else islice_aux step nxt (Suc i) xs)"

definition islice :: "'a list \<Rightarrow> nat \<Rightarrow> nat option \<Rightarrow> nat \<Rightarrow> error + 'a list" where
  "islice xs start stop step =
     (if step = 0 then Inl (ValueError ''Step for islice() must be a positive integer or None.'')
      else Inr (islice_aux step start 0 (case stop of None \<Rightarrow> xs | Some s \<Rightarrow> take s xs)))"

text \<open>Line 476: the \<open>(doc_id, doc)\<close> pairs that rank \<open>r\<close> post-processes.\<close>

definition doc_iterator :: "'d list \<Rightarrow> nat \<Rightarrow> nat option \<Rightarrow> nat \<Rightarrow> error + (nat \<times> 'd) list" where
  "doc_iterator docs r limit ws = islice (enumerate 0 docs) r limit ws"

text \<open>The shards of all ranks \<open>0..<ws\<close>, in rank order.\<close>

definition shards :: "'d list \<Rightarrow> nat option \<Rightarrow> nat \<Rightarrow> (error + (nat \<times> 'd) list) list" where
  "shards docs limit ws = map (\<lambda>r. doc_iterator docs r limit ws) [0..<ws]"

text \<open>The limit-truncated document stream \<open>docs[0:limit]\<close>, each document with its position.\<close>

definition limited_docs :: "'d list \<Rightarrow> nat option \<Rightarrow> (nat \<times> 'd) list" where
  "limited_docs docs limit = (case limit of None \<Rightarrow> enumerate 0 docs | Some s \<Rightarrow> take s (enumerate 0 docs))"

section \<open>Result collection (lines 442-519)\<close>

text \<open>
  Lines 450-455: \<open>instances_by_doc_id[instance.doc_id].append(instance)\<close> for every instance,
  then \<open>instances.sort(key=lambda x: x.idx)\<close> on every group. Python's \<open>list.sort\<close> is
  stable, as is \<open>sort_key\<close>.
\<close>

definition instances_by_doc_id :: "'r Instance list \<Rightarrow> (nat \<times> 'r Instance list) list" where
  "instances_by_doc_id insts =
     map (\<lambda>(d, grp). (d, sort_key idx grp)) (fold (\<lambda>i d. dict_append d (doc_id i) i) insts [])"

text \<open>Line 484: \<open>instances_by_doc_id[doc_id]\<close>; a \<open>defaultdict(list)\<close> gives \<open>[]\<close> for a new key.\<close>

definition lookup_default :: "('k \<times> 'v list) list \<Rightarrow> 'k \<Rightarrow> 'v list" where
  "lookup_default d k = (case map_of d k of None \<Rightarrow> [] | Some v \<Rightarrow> v)"

text \<open>
  Lines 485 and 504: \<open>[req.filtered_resps[filter_key] for req in requests]\<close>. No statement
  of \<open>evaluator.py\<close> binds the name \<open>filter_key\<close> (the loop of line 457 binds \<open>key\<close>), so
  the element expression raises \<open>NameError\<close> when it is evaluated for the first request;
  over an empty list the comprehension yields \<open>[]\<close> without evaluating it.
\<close>

definition filtered_list :: "'r Instance list \<Rightarrow> error + 'r list" where
  "filtered_list requests =
     (case requests of [] \<Rightarrow> Inr [] | req # reqs \<Rightarrow> Inl (NameError ''filter_key''))"

text \<open>
  Lines 484-519 for one document \<open>(doc_id, doc)\<close> of the shard; \<open>process_results\<close> is the
  task's metric function, returning the items of its dict. With sample logging the record
  of lines 498-515 is built: the comprehension again, then \<open>requests[0]\<close> (line 507), which
  raises on a document without instances. Line 519 reads \<open>filter_key\<close> for every metric
  returned. The result is the call of \<open>process_results\<close> that was made: the document and
  the list of filtered responses it received.
\<close>

definition process_doc :: "bool \<Rightarrow> ('d \<Rightarrow> 'r list \<Rightarrow> (string \<times> 'v) list) \<Rightarrow> (nat \<times> 'r Instance list) list
    \<Rightarrow> nat \<times> 'd \<Rightarrow> error + ('d \<times> 'r list)" where
  "process_doc log_samples process_results by_doc dd =
     (let requests = lookup_default by_doc (fst dd) in
      case filtered_list requests of
        Inl e \<Rightarrow> Inl e
      | Inr args \<Rightarrow>
          (let metrics = process_results (snd dd) args in
           case (if log_samples then
                   (case filtered_list requests of
                      Inl e \<Rightarrow> Inl e
                    | Inr _ \<Rightarrow> (case requests of [] \<Rightarrow> Inl IndexError | req # reqs \<Rightarrow> Inr ()))
                 else Inr ()) of
             Inl e \<Rightarrow> Inl e
           | Inr _ \<Rightarrow>
               (case metrics of
                  [] \<Rightarrow> Inr (snd dd, args)
                | mv # mvs \<Rightarrow> Inl (NameError ''filter_key''))))"

text \<open>The loop of line 483 over the documents of the shard.\<close>

fun process_calls :: "bool \<Rightarrow> ('d \<Rightarrow> 'r list \<Rightarrow> (string \<times> 'v) list) \<Rightarrow> (nat \<times> 'r Instance list) list
    \<Rightarrow> (nat \<times> 'd) list \<Rightarrow> error + ('d \<times> 'r list) list" where
  "process_calls log_samples process_results by_doc [] = Inr []"
| "process_calls log_samples process_results by_doc (dd # rest) =
     (case process_doc log_samples process_results by_doc dd of
        Inl e \<Rightarrow> Inl e
      | Inr call \<Rightarrow>
          (case process_calls log_samples process_results by_doc rest of
             Inl e \<Rightarrow> Inl e
           | Inr calls \<Rightarrow> Inr (call # calls)))"

text \<open>
  The loop of line 457 over the filter names: for each of them the shard is walked again
  (line 476).
\<close>

fun collect_keys :: "string list \<Rightarrow> bool \<Rightarrow> ('d \<Rightarrow> 'r list \<Rightarrow> (string \<times> 'v) list) \<Rightarrow> (nat \<times> 'r Instance list) list
    \<Rightarrow> 'd list \<Rightarrow> nat \<Rightarrow> nat option \<Rightarrow> nat \<Rightarrow> error + ('d \<times> 'r list) list" where
  "collect_keys [] log_samples process_results by_doc docs r limit ws = Inr []"
| "collect_keys (key # keys) log_samples process_results by_doc docs r limit ws =
     (case doc_iterator docs r limit ws of
        Inl e \<Rightarrow> Inl e
      | Inr it \<Rightarrow>
          (case process_calls log_samples process_results by_doc it of
             Inl e \<Rightarrow> Inl e
           | Inr calls \<Rightarrow>
               (case collect_keys keys log_samples process_results by_doc docs r limit ws of
                  Inl e \<Rightarrow> Inl e
                | Inr later \<Rightarrow> Inr (calls @ later))))"

text \<open>
  Lines 442-519 for one task: \<open>insts\<close> are the task's instances after \<open>apply_filters\<close>,
  \<open>docs\<close> its documents. Line 457 reads \<open>task.instances[0]\<close>, which raises for a task
  without instances on this rank. The result lists the calls of \<open>process_results\<close>.
\<close>

definition collect_task :: "bool \<Rightarrow> ('d \<Rightarrow> 'r list \<Rightarrow> (string \<times> 'v) list) \<Rightarrow> 'r Instance list \<Rightarrow> 'd list
    \<Rightarrow> nat \<Rightarrow> nat option \<Rightarrow> nat \<Rightarrow> error + ('d \<times> 'r list) list" where
  "collect_task log_samples process_results insts docs r limit ws =
     (case insts of
        [] \<Rightarrow> Inl IndexError
      | first # others \<Rightarrow>
          collect_keys (map fst (filtered_resps first)) log_samples process_results
            (instances_by_doc_id insts) docs r limit ws)"

text \<open>The loop of line 442 over the tasks, each given by its instances and documents.\<close>

fun collect_tasks :: "bool \<Rightarrow> ('d \<Rightarrow> 'r list \<Rightarrow> (string \<times> 'v) list) \<Rightarrow> ('r Instance list \<times> 'd list) list
    \<Rightarrow> nat \<Rightarrow> nat option \<Rightarrow> nat \<Rightarrow> error + ('d \<times> 'r list) list" where
  "collect_tasks log_samples process_results [] r limit ws = Inr []"
| "collect_tasks log_samples process_results (t # ts) r limit ws =
     (case collect_task log_samples process_results (fst t) (snd t) r limit ws of
        Inl e \<Rightarrow> Inl e
      | Inr calls \<Rightarrow>
          (case collect_tasks log_samples process_results ts r limit ws of
             Inl e \<Rightarrow> Inl e
           | Inr later \<Rightarrow> Inr (calls @ later)))"

section \<open>Cross-rank reduction (lines 521-566)\<close>

text \<open>
  With more than one worker the block is entered. The loop of line 524 runs over
  \<open>samples\<close>, which is still the empty \<open>defaultdict\<close> of line 326, and does nothing; line
  529 creates \<open>vals_torch\<close>; line 530 evaluates \<open>vals.items()\<close>. \<open>vals\<close> is a local
  variable of \<open>evaluate\<close> (line 564 assigns it) and nothing binds it before line 530, so
  the read raises \<open>UnboundLocalError\<close>: the padding, the gather and the removal of the
  padding in lines 531-562 are never reached. With one worker the block is skipped and
  what was collected stays as it is.
\<close>

definition gather_across_ranks :: "nat \<Rightarrow> 'm \<Rightarrow> error + 'm" where
  "gather_across_ranks ws collected =
     (if ws > 1 then Inl (UnboundLocalError ''vals'') else Inr collected)"

text \<open>\<open>evaluate\<close> from line 442 to line 566: post-processing, then the reduction.\<close>

definition evaluate_postprocess :: "bool \<Rightarrow> ('d \<Rightarrow> 'r list \<Rightarrow> (string \<times> 'v) list) \<Rightarrow> ('r Instance list \<times> 'd list) list
    \<Rightarrow> nat \<Rightarrow> nat option \<Rightarrow> nat \<Rightarrow> error + ('d \<times> 'r list) list" where
  "evaluate_postprocess log_samples process_results tasks r limit ws =
     (case collect_tasks log_samples process_results tasks r limit ws of
        Inl e \<Rightarrow> Inl e
      | Inr calls \<Rightarrow> gather_across_ranks ws calls)"

section \<open>Group-level \<open>higher_is_better\<close> (lines 628-639)\<close>

text \<open>
  A polarity is \<open>True\<close>, \<open>False\<close> or Python's \<open>None\<close>. The accumulator
  \<open>_higher_is_better\<close> is a dict from metric names to polarities, in insertion order.
  \<open>higher_is_better\<close> maps a name either to a task's own dict (as \<open>consolidate_results\<close>
  returned it) or, after line 639, to the accumulator object itself: the assignment stores
  a reference, not a copy.
\<close>

type_synonym polarity = "bool option"

datatype hib_entry = Leaf "(string \<times> bool) list" | Shared

record hib_state =
  acc :: "(string \<times> polarity) list"
  hib_table :: "string \<Rightarrow> hib_entry option"
  warnings :: "(string \<times> string) list"

text \<open>Lines 633-638 for one item \<open>(m, h)\<close>; a warning is logged as (metric, group).\<close>

definition step_metric :: "string \<Rightarrow> string \<times> polarity \<Rightarrow> (string \<times> polarity) list \<times> (string \<times> string) list
    \<Rightarrow> (string \<times> polarity) list \<times> (string \<times> string) list" where
  "step_metric grp mh aw =
     (let m = fst mh; h = snd mh;
          a = (if m \<notin> fst ` set (fst aw) then fst aw @ [(m, h)] else fst aw)
      in case map_of a m of
           None \<Rightarrow> (a, snd aw)
         | Some v \<Rightarrow>
             (if v \<noteq> None \<and> v \<noteq> h then (AList.update m None a, snd aw @ [(m, grp)])
              else (a, snd aw)))"

text \<open>
  \<open>higher_is_better[task].items()\<close>: the items of a task's own dict, or of the accumulator
  when the name is a group recorded earlier (iterating the accumulator over itself changes
  nothing, so its items are taken as they are when the iteration starts).
\<close>

definition entry_items :: "hib_entry \<Rightarrow> (string \<times> polarity) list \<Rightarrow> (string \<times> polarity) list" where
  "entry_items e a = (case e of Leaf d \<Rightarrow> map (\<lambda>(m, b). (m, Some b)) d | Shared \<Rightarrow> a)"

definition step_task :: "string \<Rightarrow> string \<Rightarrow> hib_state \<Rightarrow> error + hib_state" where
  "step_task grp t st =
     (case hib_table st t of
        None \<Rightarrow> Inl (KeyError t)
      | Some e \<Rightarrow>
          (let aw = fold (step_metric grp) (entry_items e (acc st)) (acc st, warnings st)
           in Inr (st\<lparr>acc := fst aw, warnings := snd aw\<rparr>)))"

fun step_tasks :: "string \<Rightarrow> string list \<Rightarrow> hib_state \<Rightarrow> error + hib_state" where
  "step_tasks grp [] st = Inr st"
| "step_tasks grp (t # ts) st =
     (case step_task grp t st of Inl e \<Rightarrow> Inl e | Inr st' \<Rightarrow> step_tasks grp ts st')"

text \<open>Lines 630-639 for one group.\<close>

definition step_group :: "string \<times> string list \<Rightarrow> hib_state \<Rightarrow> error + hib_state" where
  "step_group gt st =
     (if length (snd gt) \<noteq> 0 then
        (case step_tasks (fst gt) (snd gt) st of
           Inl e \<Rightarrow> Inl e
         | Inr st' \<Rightarrow> Inr (st'\<lparr>hib_table := (hib_table st')(fst gt \<mapsto> Shared)\<rparr>))
      else Inr st)"

fun step_groups :: "(string \<times> string list) list \<Rightarrow> hib_state \<Rightarrow> error + hib_state" where
  "step_groups [] st = Inr st"
| "step_groups (gt # gts) st =
     (case step_group gt st of Inl e \<Rightarrow> Inl e | Inr st' \<Rightarrow> step_groups gts st')"

text \<open>
  Lines 628-639: \<open>hib0\<close> is \<open>higher_is_better\<close> as \<open>consolidate_results\<close> returned it,
  \<open>subtask_list\<close> the items of the dict of that name.
\<close>

definition consolidate_hib :: "(string \<Rightarrow> (string \<times> bool) list option) \<Rightarrow> (string \<times> string list) list \<Rightarrow> error + hib_state" where
  "consolidate_hib hib0 subtask_list =
     step_groups subtask_list \<lparr>acc = [], hib_table = (\<lambda>t. map_option Leaf (hib0 t)), warnings = []\<rparr>"

text \<open>What \<open>higher_is_better[name]\<close> holds in the end: a reference is followed.\<close>

definition recorded :: "hib_state \<Rightarrow> string \<Rightarrow> (string \<times> polarity) list option" where
  "recorded st name = (case hib_table st name of None \<Rightarrow> None | Some e \<Rightarrow> Some (entry_items e (acc st)))"

text \<open>No group with subtasks bears the name \<open>t\<close>.\<close>

definition not_a_group :: "(string \<times> string list) list \<Rightarrow> string \<Rightarrow> bool" where
  "not_a_group subtask_list t = list_all (\<lambda>gt. snd gt = [] \<or> fst gt \<noteq> t) subtask_list"

text \<open>Every subtask named in a group has an entry in \<open>higher_is_better\<close>.\<close>

definition subtasks_known :: "(string \<Rightarrow> (string \<times> bool) list option) \<Rightarrow> (string \<times> string list) list \<Rightarrow> bool" where
  "subtasks_known hib0 subtask_list = list_all (\<lambda>gt. list_all (\<lambda>t. hib0 t \<noteq> None) (snd gt)) subtask_list"

section \<open>Names used in the statements\<close>

text \<open>The instances a list of references stands for.\<close>

definition submitted :: "'r store \<Rightarrow> nat list \<Rightarrow> 'r Instance list" where
  "submitted store cloned = map (\<lambda>i. store ! i) cloned"

section \<open>Example inputs\<close>

text \<open>
  A backend that answers every request with one response, one that returns nothing, and one
  that returns four responses whatever it is asked.
\<close>

definition one_each :: "string \<Rightarrow> (string Instance list \<Rightarrow> string list) option" where
  "one_each reqtype = Some (map request_type)"

definition no_answer :: "string \<Rightarrow> (string Instance list \<Rightarrow> string list) option" where
  "no_answer reqtype = Some (\<lambda>reqs. [])"

definition four_answers :: "string \<Rightarrow> (string Instance list \<Rightarrow> string list) option" where
  "four_answers reqtype = Some (\<lambda>reqs. [''r1'', ''r2'', ''r3'', ''r4''])"

definition example_lm :: "nat \<Rightarrow> nat \<Rightarrow> (string \<Rightarrow> (string Instance list \<Rightarrow> string list) option) \<Rightarrow> string lm" where
  "example_lm ws r cap = \<lparr>rank = r, world_size = ws, capability = cap\<rparr>"

text \<open>An instance of document \<open>d\<close> at position \<open>i\<close>, without responses yet.\<close>

definition example_instance :: "string \<Rightarrow> nat \<Rightarrow> int \<Rightarrow> int \<Rightarrow> string Instance" where
  "example_instance reqtype d i k =
     \<lparr>request_type = reqtype, doc_id = d, idx = i, repeats = k, resps = [], filtered_resps = []\<rparr>"

text \<open>An instance of document \<open>d\<close> at position \<open>i\<close> with one filtered response.\<close>

definition filtered_instance :: "nat \<Rightarrow> int \<Rightarrow> string \<Rightarrow> string Instance" where
  "filtered_instance d i v =
     \<lparr>request_type = ''loglikelihood'', doc_id = d, idx = i, repeats = 1, resps = [v], filtered_resps = [(''none'', v)]\<rparr>"

definition example_task :: "string \<Rightarrow> string \<Rightarrow> string list option \<Rightarrow> nat list \<Rightarrow> int list \<Rightarrow> task" where
  "example_task name out ms refs counts =
     \<lparr>task_name = name, OUTPUT_TYPE = out, metric_fn_list = ms, instances = refs, gathered_item = counts\<rparr>"

text \<open>Five instances of two documents, out of order, two of them with the same \<open>idx\<close>.\<close>

definition example_instances :: "string Instance list" where
  "example_instances =
     [filtered_instance 1 2 ''c'', filtered_instance 0 1 ''b'', filtered_instance 1 0 ''a'',
      filtered_instance 1 2 ''d'', filtered_instance 0 0 ''e'']"

text \<open>A metric function: one metric per document, the number of responses it was given.\<close>

definition example_process :: "string \<Rightarrow> string list \<Rightarrow> (string \<times> nat) list" where
  "example_process doc args = [(''exact_match'', length args)]"

text \<open>Two instances, with one and two repeats.\<close>

definition two_instances :: "string Instance list" where
  "two_instances = [example_instance ''generate_until'' 0 0 1, example_instance ''generate_until'' 1 0 2]"

text \<open>Two generation tasks on two ranks: the first has more documents on rank 0, the second on rank 1.\<close>

definition two_tasks :: "task list" where
  "two_tasks =
     [example_task ''a'' ''generate_until'' None [] [2, 1],
      example_task ''b'' ''generate_until'' None [] [1, 2]]"

text \<open>Polarities of two leaf tasks that disagree on \<open>acc\<close>, and of two that agree.\<close>

definition example_hib :: "string \<Rightarrow> (string \<times> bool) list option" where
  "example_hib t =
     (if t = ''up'' then Some [(''acc'', True)]
      else if t = ''down'' then Some [(''acc'', False)]
      else if t = ''x'' then Some [(''f1'', True)]
      else if t = ''y'' then Some [(''f1'', True), (''em'', True)]
      else None)"

section \<open>Sharding: the shards partition the limit-truncated documents\<close>

lemma islice_aux_filter:
  "0 < step \<Longrightarrow> i \<le> nxt \<Longrightarrow>
   islice_aux step nxt i xs =
     map snd (filter (\<lambda>(j, x). nxt \<le> j \<and> (j - nxt) mod step = 0) (enumerate i xs))"
proof (induction xs arbitrary: i nxt)
  case Nil
  then show ?case by simp
next
  case (Cons x xs)
  show ?case
  proof (cases "i = nxt")
    case True
    have ih: "islice_aux step (nxt + step) (Suc i) xs =
        map snd (filter (\<lambda>(j, x). nxt + step \<le> j \<and> (j - (nxt + step)) mod step = 0) (enumerate (Suc i) xs))"
      using Cons.IH [of "Suc i" "nxt + step"] Cons.prems True by simp
    have eq: "filter (\<lambda>(j, x). nxt + step \<le> j \<and> (j - (nxt + step)) mod step = 0) (enumerate (Suc i) xs)
        = filter (\<lambda>(j, x). nxt \<le> j \<and> (j - nxt) mod step = 0) (enumerate (Suc i) xs)"
    proof (rule filter_cong [OF refl])
      fix p assume p: "p \<in> set (enumerate (Suc i) xs)"
      obtain j y where py: "p = (j, y)" by (cases p)
      from p py have j: "Suc nxt \<le> j" using True by (auto simp: in_set_enumerate_eq)
      have "(nxt + step \<le> j \<and> (j - (nxt + step)) mod step = 0) = (nxt \<le> j \<and> (j - nxt) mod step = 0)"
      proof
        assume a: "nxt + step \<le> j \<and> (j - (nxt + step)) mod step = 0"
        then have "j - nxt = (j - (nxt + step)) + step" by simp
        then have "(j - nxt) mod step = 0" using a by (metis mod_add_self2)
        with a show "nxt \<le> j \<and> (j - nxt) mod step = 0" by simp
      next
        assume a: "nxt \<le> j \<and> (j - nxt) mod step = 0"
        have pos: "0 < j - nxt" using j by simp
        from a have "step dvd (j - nxt)" by (simp add: dvd_eq_mod_eq_0)
        then have ge: "step \<le> j - nxt" using pos by (simp add: dvd_imp_le)
        then have "j - nxt = (j - (nxt + step)) + step" by simp
        then have "(j - (nxt + step)) mod step = 0" using a by (metis mod_add_self2)
        with ge j show "nxt + step \<le> j \<and> (j - (nxt + step)) mod step = 0" by simp
      qed
      then show "(case p of (j, x) \<Rightarrow> nxt + step \<le> j \<and> (j - (nxt + step)) mod step = 0)
          = (case p of (j, x) \<Rightarrow> nxt \<le> j \<and> (j - nxt) mod step = 0)"
        using py by simp
    qed
    show ?thesis using True ih eq by simp
  next
    case False
    then have lt: "Suc i \<le> nxt" using Cons.prems by simp
    have "islice_aux step nxt (Suc i) xs =
        map snd (filter (\<lambda>(j, x). nxt \<le> j \<and> (j - nxt) mod step = 0) (enumerate (Suc i) xs))"
      using Cons.IH [of "Suc i" nxt] Cons.prems lt by simp
    then show ?thesis using False Cons.prems by simp
  qed
qed

lemma stride_cond: "r < W \<Longrightarrow> (r \<le> j \<and> (j - r) mod W = 0) = (j mod W = (r::nat))"
proof
  assume r: "r < W" and a: "r \<le> j \<and> (j - r) mod W = 0"
  then have "W dvd (j - r)" by (simp add: dvd_eq_mod_eq_0)
  then obtain k where "j - r = W * k" by (auto simp: dvd_def)
  with a have "j = r + W * k" by simp
  then show "j mod W = r" using r by simp
next
  assume r: "r < W" and a: "j mod W = r"
  have j: "j = W * (j div W) + r" using a by (metis mult_div_mod_eq)
  then have "r \<le> j" by simp
  moreover have "j - r = W * (j div W)" using j by simp
  then have "(j - r) mod W = 0" by simp
  ultimately show "r \<le> j \<and> (j - r) mod W = 0" by simp
qed

lemma enumerate_twice:
  "map snd (filter (\<lambda>(j, x). Q j) (enumerate n (enumerate n ds))) = filter (\<lambda>(p, d). Q p) (enumerate n ds)"
  by (induction ds arbitrary: n) auto

lemma mset_classes:
  "mset (concat (map (\<lambda>r. filter (\<lambda>x. f x = r) xs) [0..<W])) = mset (filter (\<lambda>x. f x < (W::nat)) xs)"
proof (induction W)
  case 0
  then show ?case by simp
next
  case (Suc W)
  have "mset (filter (\<lambda>x. f x < Suc W) xs) = mset (filter (\<lambda>x. f x < W) xs) + mset (filter (\<lambda>x. f x = W) xs)"
    by (induction xs) auto
  with Suc show ?case by simp
qed

lemma take_enumerate: "take s (enumerate n xs) = enumerate n (take s xs)"
  by (induction xs arbitrary: s n) (auto simp: take_Cons split: nat.splits)

lemma limited_docs_enumerate:
  "limited_docs docs limit = enumerate 0 (case limit of None \<Rightarrow> docs | Some s \<Rightarrow> take s docs)"
  by (simp add: limited_docs_def take_enumerate split: option.splits)

lemma doc_iterator_filter:
  assumes "0 < W" "r < W"
  shows "doc_iterator docs r limit W = Inr (filter (\<lambda>(p, d). p mod W = r) (limited_docs docs limit))"
proof -
  have l: "(case limit of None \<Rightarrow> enumerate 0 docs | Some s \<Rightarrow> take s (enumerate 0 docs)) = limited_docs docs limit"
    by (simp add: limited_docs_def)
  obtain ds where ds: "limited_docs docs limit = enumerate 0 ds"
    using limited_docs_enumerate by blast
  have "islice_aux W r 0 (enumerate 0 ds)
      = map snd (filter (\<lambda>(j, x). r \<le> j \<and> (j - r) mod W = 0) (enumerate 0 (enumerate 0 ds)))"
    using assms by (simp add: islice_aux_filter)
  also have "\<dots> = filter (\<lambda>(p, d). r \<le> p \<and> (p - r) mod W = 0) (enumerate 0 ds)"
    by (rule enumerate_twice)
  also have "\<dots> = filter (\<lambda>(p, d). p mod W = r) (enumerate 0 ds)"
    using assms(2) by (simp add: stride_cond)
  finally show ?thesis using assms(1) by (simp add: doc_iterator_def islice_def l ds)
qed

text \<open>
  C6. For every world size \<open>W \<ge> 1\<close> and every limit, no rank's \<open>islice\<close> raises, the shards
  of the ranks \<open>0..<W\<close> are pairwise disjoint, their union is the limit-truncated document
  set, and every document of that set occurs exactly once in the shards taken together.
\<close>

theorem shards_partition:
  assumes "0 < W"
  shows "\<exists>ss. shards docs limit W = map Inr ss \<and> length ss = W
      \<and> (\<forall>i<W. \<forall>j<W. i \<noteq> j \<longrightarrow> set (ss ! i) \<inter> set (ss ! j) = {})
      \<and> \<Union> (set (map set ss)) = set (limited_docs docs limit)
      \<and> mset (concat ss) = mset (limited_docs docs limit)
      \<and> distinct (concat ss)"
proof -
  let ?L = "limited_docs docs limit"
  let ?ss = "map (\<lambda>r. filter (\<lambda>(p, d). p mod W = r) ?L) [0..<W]"
  have 1: "shards docs limit W = map Inr ?ss"
    using assms by (simp add: shards_def doc_iterator_filter)
  have 2: "length ?ss = W" by simp
  have 3: "\<forall>i<W. \<forall>j<W. i \<noteq> j \<longrightarrow> set (?ss ! i) \<inter> set (?ss ! j) = {}"
    by auto
  have "mset (concat (map (\<lambda>r. filter (\<lambda>x. fst x mod W = r) ?L) [0..<W])) = mset (filter (\<lambda>x. fst x mod W < W) ?L)"
    by (rule mset_classes)
  moreover have "(\<lambda>r. filter (\<lambda>x. fst x mod W = r) ?L) = (\<lambda>r. filter (\<lambda>(p, d). p mod W = r) ?L)"
    by (simp add: case_prod_unfold)
  ultimately have 5: "mset (concat ?ss) = mset ?L" using assms by simp
  have dL: "distinct ?L"
    by (simp add: limited_docs_enumerate distinct_enumerate)
  have 6: "distinct (concat ?ss)"
    using 5 dL by (metis mset_eq_imp_distinct_iff)
  have "set (concat ?ss) = set ?L" using 5 by (rule mset_eq_setD)
  then have 4: "\<Union> (set (map set ?ss)) = set ?L" by simp
  from 1 2 3 4 5 6 show ?thesis by blast
qed

theorem shards_partition_witness:
  "(0::nat) < 2 \<and> (\<exists>ss. shards [''a'', ''b'', ''c'', ''d''] (Some 3) 2 = map Inr ss \<and> length ss = 2
      \<and> (\<forall>i<2. \<forall>j<2. i \<noteq> j \<longrightarrow> set (ss ! i) \<inter> set (ss ! j) = {})
      \<and> \<Union> (set (map set ss)) = set (limited_docs [''a'', ''b'', ''c'', ''d''] (Some 3))
      \<and> mset (concat ss) = mset (limited_docs [''a'', ''b'', ''c'', ''d''] (Some 3))
      \<and> distinct (concat ss))"
  using shards_partition [of 2 "[''a'', ''b'', ''c'', ''d'']" "Some 3"] by simp

section \<open>The \<open>bypass\<close> check comes first\<close>

text \<open>
  C9. If \<open>log_samples\<close> is false and the metric list of some selected task contains
  \<open>bypass\<close>, \<open>evaluate\<close> raises the \<open>ValueError\<close> of line 349, and the log of backend
  calls is empty: nothing was dispatched.
\<close>

theorem bypass_needs_log_samples:
  assumes "\<not> log_samples" and "t \<in> set eval_tasks" and "''bypass'' \<in> set (metric_fn_keys t)"
  shows "evaluate_dispatch l log_samples eval_tasks store =
     ([], Inl (ValueError ''log_samples must be True for 'bypass' metric-only tasks''))"
proof -
  have "\<not> list_all (\<lambda>t. ''bypass'' \<notin> set (metric_fn_keys t)) eval_tasks"
    using assms(2,3) by (auto simp: list_all_iff)
  then have "bypass_check log_samples eval_tasks =
      Inl (ValueError ''log_samples must be True for 'bypass' metric-only tasks'')"
    using assms(1) by (simp add: bypass_check_def)
  then show ?thesis by (simp add: evaluate_dispatch_def)
qed

theorem bypass_needs_log_samples_witness:
  "\<not> False \<and> example_task ''t'' ''generate_until'' (Some [''bypass'']) [0] [1] \<in> set [example_task ''t'' ''generate_until'' (Some [''bypass'']) [0] [1]]
   \<and> ''bypass'' \<in> set (metric_fn_keys (example_task ''t'' ''generate_until'' (Some [''bypass'']) [0] [1]))
   \<and> evaluate_dispatch (example_lm 1 0 one_each) False [example_task ''t'' ''generate_until'' (Some [''bypass'']) [0] [1]]
        [example_instance ''generate_until'' 0 0 1] =
     ([], Inl (ValueError ''log_samples must be True for 'bypass' metric-only tasks''))"
  using bypass_needs_log_samples [of False "example_task ''t'' ''generate_until'' (Some [''bypass'']) [0] [1]"
      "[example_task ''t'' ''generate_until'' (Some [''bypass'']) [0] [1]]" "example_lm 1 0 one_each"
      "[example_instance ''generate_until'' 0 0 1]"]
  by (simp add: metric_fn_keys_def example_task_def)

section \<open>Dispatch: what is written back\<close>

lemmas eval_simps = evaluate_dispatch_def bypass_check_def metric_fn_keys_def example_task_def
  example_lm_def example_instance_def pad_task_def numpad_def reqtype_of_def add_requests_def
  dict_append_def cloned_reqs_def clone_reqs_def padding_copies_def dispatch_group_def
  one_each_def no_answer_def four_answers_def

text \<open>
  C4. On rank 1 of 2, with one instance of \<open>repeats = 1\<close> and a ledger entry of 1, two
  copies of the instance are submitted and both responses are appended to it: the instance
  ends with two responses, not with \<open>repeats\<close> many.
\<close>

theorem padding_responses_kept:
  "evaluate_dispatch (example_lm 2 1 one_each) True
      [example_task ''t'' ''generate_until'' None [0] [2, 1]]
      [example_instance ''generate_until'' 1 0 1]
   = ([(''generate_until'', 2)],
      Inr [(example_instance ''generate_until'' 1 0 1)\<lparr>resps := [''generate_until'', ''generate_until'']\<rparr>])"
  by (simp add: eval_simps)

text \<open>
  C5, as the code has it. A backend that returns no response for one submitted copy: the
  call is logged, no error is raised, and the instance is left without a response.
\<close>

theorem mismatch_not_detected:
  "evaluate_dispatch (example_lm 1 0 no_answer) True
      [example_task ''t'' ''generate_until'' None [0] [1]]
      [example_instance ''generate_until'' 0 0 1]
   = ([(''generate_until'', 1)], Inr [example_instance ''generate_until'' 0 0 1])"
  by (simp add: eval_simps)

lemma write_back_length: "length (write_back xs cloned store) = length store"
  by (induction xs cloned store rule: write_back.induct) auto

lemma write_back_nth:
  "j < length store \<Longrightarrow>
   write_back xs cloned store ! j =
     (store ! j)\<lparr>resps := resps (store ! j) @ map fst (filter (\<lambda>p. snd p = j) (zip xs cloned))\<rparr>"
proof (induction xs cloned store rule: write_back.induct)
  case (1 x xs i rs store)
  let ?store = "store[i := (store ! i)\<lparr>resps := resps (store ! i) @ [x]\<rparr>]"
  have len: "j < length ?store" using "1.prems" by simp
  have ih: "write_back xs rs ?store ! j =
      (?store ! j)\<lparr>resps := resps (?store ! j) @ map fst (filter (\<lambda>p. snd p = j) (zip xs rs))\<rparr>"
    using "1.IH" [OF len] .
  show ?case
  proof (cases "i = j")
    case True
    then show ?thesis using ih "1.prems" by simp
  next
    case False
    then show ?thesis using ih "1.prems" by simp
  qed
qed simp_all

text \<open>
  C5, amended. When the backend has the capability, dispatch of a non-empty group raises no
  error whatever the number of responses. Responses and submitted copies are paired in
  order, as \<open>zip\<close> pairs them: every instance keeps its fields and has appended to its
  responses, in order, exactly the responses paired with its copies; responses beyond the
  number of copies are dropped and copies beyond the number of responses receive nothing.
\<close>

theorem dispatch_pairs_in_order:
  assumes "capability l (fst rq) = Some f" and "snd rq \<noteq> []" and "j < length store"
  shows "\<exists>cloned store'. cloned_reqs store (snd rq) (world_size l) (padding (fst rq)) = Inr cloned
     \<and> dispatch_group l padding rq store = Inr store'
     \<and> length store' = length store
     \<and> store' ! j =
         (store ! j)\<lparr>resps := resps (store ! j)
            @ map fst (filter (\<lambda>p. snd p = j) (zip (f (submitted store cloned)) cloned))\<rparr>"
proof -
  have "\<exists>cloned. cloned_reqs store (snd rq) (world_size l) (padding (fst rq)) = Inr cloned"
    using assms(2) by (simp add: cloned_reqs_def padding_copies_def)
  then obtain cloned where c: "cloned_reqs store (snd rq) (world_size l) (padding (fst rq)) = Inr cloned"
    by blast
  let ?store = "write_back (f (submitted store cloned)) cloned store"
  have d: "dispatch_group l padding rq store = Inr ?store"
    using c assms(1) by (simp add: dispatch_group_def submitted_def)
  have n: "length ?store = length store" by (rule write_back_length)
  have w: "?store ! j =
         (store ! j)\<lparr>resps := resps (store ! j)
            @ map fst (filter (\<lambda>p. snd p = j) (zip (f (submitted store cloned)) cloned))\<rparr>"
    using assms(3) by (rule write_back_nth)
  from c d n w show ?thesis by blast
qed

theorem dispatch_pairs_in_order_witness:
  "capability (example_lm 1 0 four_answers) (fst (''generate_until'', [0::nat, 1])) = Some (\<lambda>reqs. [''r1'', ''r2'', ''r3'', ''r4''])
   \<and> snd (''generate_until'', [0::nat, 1]) \<noteq> []
   \<and> (1::nat) < length two_instances
   \<and> cloned_reqs two_instances (snd (''generate_until'', [0::nat, 1])) 1 0 = Inr [0, 1, 1]
   \<and> dispatch_group (example_lm 1 0 four_answers) (\<lambda>_. 0) (''generate_until'', [0, 1]) two_instances
       = Inr [(example_instance ''generate_until'' 0 0 1)\<lparr>resps := [''r1'']\<rparr>,
              (example_instance ''generate_until'' 1 0 2)\<lparr>resps := [''r2'', ''r3'']\<rparr>]"
  using dispatch_pairs_in_order [of "example_lm 1 0 four_answers" "(''generate_until'', [0, 1])"
      "\<lambda>reqs. [''r1'', ''r2'', ''r3'', ''r4'']" 1 two_instances "\<lambda>_. 0"]
  by (simp add: eval_simps submitted_def two_instances_def eval_nat_numeral)

section \<open>The padding ledger\<close>

lemma build_padding_single: "\<not> 1 < ws \<Longrightarrow> build_padding ws r ts p = Inr p"
  by (induction ts arbitrary: p) (auto simp: pad_task_def)

lemma build_padding_multi:
  assumes "1 < ws" "r < ws" "gathered_ok ws ts"
  shows "build_padding ws r ts p =
     Inr (\<lambda>rt. p rt + sum_list (map (\<lambda>t. Max (set (gathered_item t)) - gathered_item t ! r) (filter (\<lambda>t. reqtype_of t = rt) ts)))"
  using assms(3)
proof (induction ts arbitrary: p)
  case Nil
  then show ?case by simp
next
  case (Cons t ts)
  from Cons.prems have len: "length (gathered_item t) = ws" and rest: "gathered_ok ws ts"
    by (simp_all add: gathered_ok_def)
  have np: "numpad (gathered_item t) r = Inr (Max (set (gathered_item t)) - gathered_item t ! r)"
    using len assms(1,2) by (auto simp: numpad_def)
  have pt: "pad_task ws r t p = Inr (p(reqtype_of t := p (reqtype_of t) + (Max (set (gathered_item t)) - gathered_item t ! r)))"
    using assms(1) np by (simp add: pad_task_def)
  show ?case
    using Cons.IH [OF rest] pt by (auto simp: fun_eq_iff)
qed

lemma max_total_diff:
  "sum_list (map (\<lambda>t. Max (set (gathered_item t)) - gathered_item t ! r) (filter (\<lambda>t. reqtype_of t = rt) ts))
     = max_total ts rt - local_count ts r rt"
  by (simp add: max_total_def local_count_def sum_list_subtractf)

lemma padding_entry_eq:
  assumes "r < ws" "gathered_ok ws ts"
  shows "padding_entry ws r ts rt = Inr (if 1 < ws then max_total ts rt - local_count ts r rt else 0)"
proof (cases "1 < ws")
  case True
  then show ?thesis
    using build_padding_multi [OF True assms, of "\<lambda>_. 0"] by (simp add: padding_entry_def max_total_diff)
next
  case False
  then show ?thesis using build_padding_single [of ws r ts "\<lambda>_. 0"] by (simp add: padding_entry_def)
qed

text \<open>
  C2, amended. On rank \<open>r\<close> the ledger entry of a request type is the sum, over the tasks
  counted under that type, of the largest count any rank reported for the task minus rank
  \<open>r\<close>'s own count for it (and 0 on a single worker); hence the local count plus the
  padding is the same on all ranks.
\<close>

theorem padding_ledger_sums:
  assumes "gathered_ok ws ts" and "r < ws" and "r' < ws"
  shows "padding_entry ws r ts rt = Inr (if 1 < ws then max_total ts rt - local_count ts r rt else 0)
    \<and> (\<exists>p p'. padding_entry ws r ts rt = Inr p \<and> padding_entry ws r' ts rt = Inr p'
          \<and> local_count ts r rt + p = local_count ts r' rt + p')"
proof -
  have 1: "padding_entry ws r ts rt = Inr (if 1 < ws then max_total ts rt - local_count ts r rt else 0)"
    using assms by (simp add: padding_entry_eq)
  have 2: "padding_entry ws r' ts rt = Inr (if 1 < ws then max_total ts rt - local_count ts r' rt else 0)"
    using assms by (simp add: padding_entry_eq)
  have "\<not> 1 < ws \<Longrightarrow> r = r'" using assms(2,3) by simp
  then have "local_count ts r rt + (if 1 < ws then max_total ts rt - local_count ts r rt else 0)
     = local_count ts r' rt + (if 1 < ws then max_total ts rt - local_count ts r' rt else 0)"
    by auto
  with 1 2 show ?thesis by blast
qed

theorem padding_ledger_sums_witness:
  "gathered_ok 2 two_tasks \<and> (0::nat) < 2 \<and> (1::nat) < 2
   \<and> padding_entry 2 0 two_tasks ''generate_until'' = Inr 1
   \<and> padding_entry 2 1 two_tasks ''generate_until'' = Inr 1
   \<and> local_count two_tasks 0 ''generate_until'' + 1 = local_count two_tasks 1 ''generate_until'' + 1"
  using padding_ledger_sums [of 2 two_tasks 0 1 "''generate_until''"]
    padding_ledger_sums [of 2 two_tasks 1 0 "''generate_until''"]
  by (simp add: gathered_ok_def two_tasks_def example_task_def max_total_def local_count_def reqtype_of_def)

text \<open>
  C2, as stated. With two tasks of one request type whose largest counts sit on different
  ranks, the entry of rank 0 is 1, while the largest local count of the request type minus
  rank 0's own is 0.
\<close>

theorem padding_ledger_counterexample:
  "padding_entry 2 0 two_tasks ''generate_until'' = Inr 1
   \<and> padding_entry 2 0 two_tasks ''generate_until''
       \<noteq> Inr (Max (set (local_counts two_tasks ''generate_until'' 2)) - local_count two_tasks 0 ''generate_until'')"
  by (simp add: padding_entry_def two_tasks_def example_task_def pad_task_def numpad_def reqtype_of_def
      local_counts_def local_count_def upt_conv_Cons)

section \<open>Result collection: grouping and order\<close>

lemma lookup_default_dict_append:
  "lookup_default (dict_append d k' v) k = (if k = k' then lookup_default d k @ [v] else lookup_default d k)"
  by (auto simp: lookup_default_def dict_append_def update_conv' map_add_def split: option.splits)

lemma lookup_default_fold:
  "lookup_default (fold (\<lambda>i d. dict_append d (key i) i) insts d0) k
     = lookup_default d0 k @ filter (\<lambda>i. key i = k) insts"
  by (induction insts arbitrary: d0) (auto simp: lookup_default_dict_append)

lemma lookup_default_map:
  "f [] = [] \<Longrightarrow> lookup_default (map (\<lambda>(d, g). (d, f g)) al) k = f (lookup_default al k)"
  by (simp add: lookup_default_def map_of_map split: option.splits)

lemma lookup_instances_by_doc_id:
  "lookup_default (instances_by_doc_id insts) d = sort_key idx (filter (\<lambda>i. doc_id i = d) insts)"
proof -
  have "lookup_default (fold (\<lambda>i d. dict_append d (doc_id i) i) insts []) d = filter (\<lambda>i. doc_id i = d) insts"
    using lookup_default_fold [of doc_id insts "[]" d] by (simp add: lookup_default_def)
  then show ?thesis
    by (simp add: instances_by_doc_id_def lookup_default_map)
qed

lemma group_of_instance:
  assumes "i \<in> set insts"
  shows "lookup_default (instances_by_doc_id insts) (doc_id i) \<noteq> []"
proof -
  have "filter (\<lambda>j. doc_id j = doc_id i) insts \<noteq> []"
    using assms by (auto simp: filter_empty_conv)
  moreover have "length (sort_key idx (filter (\<lambda>j. doc_id j = doc_id i) insts))
      = length (filter (\<lambda>j. doc_id j = doc_id i) insts)"
    by (rule length_sort)
  ultimately have "sort_key idx (filter (\<lambda>j. doc_id j = doc_id i) insts) \<noteq> []"
    by (metis length_0_conv)
  then show ?thesis unfolding lookup_instances_by_doc_id .
qed

lemma group_sorted_stable:
  "sorted (map idx (lookup_default (instances_by_doc_id insts) d))
   \<and> filter (\<lambda>i. idx i = k) (lookup_default (instances_by_doc_id insts) d)
       = filter (\<lambda>i. idx i = k) (filter (\<lambda>i. doc_id i = d) insts)"
  by (simp only: lookup_instances_by_doc_id sort_key_stable sorted_sort_key simp_thms)

lemma process_doc_unbound:
  "lookup_default by_doc (fst dd) \<noteq> [] \<Longrightarrow>
   process_doc log_samples process_results by_doc dd = Inl (NameError ''filter_key'')"
  by (simp add: process_doc_def filtered_list_def Let_def split: list.splits)

lemma process_doc_completed:
  "process_doc log_samples process_results by_doc dd = Inr call \<Longrightarrow> snd call = []"
  by (auto simp: process_doc_def filtered_list_def Let_def split: list.splits sum.splits if_splits)

lemma process_calls_completed:
  "process_calls log_samples process_results by_doc it = Inr calls \<Longrightarrow> \<forall>c\<in>set calls. snd c = []"
proof (induction it arbitrary: calls)
  case Nil
  then show ?case by simp
next
  case (Cons dd it)
  from Cons.prems obtain call later where 1: "process_doc log_samples process_results by_doc dd = Inr call"
    and 2: "process_calls log_samples process_results by_doc it = Inr later" and 3: "calls = call # later"
    by (auto split: sum.splits)
  have "snd call = []" using 1 by (rule process_doc_completed)
  moreover have "\<forall>c\<in>set later. snd c = []" using 2 by (rule Cons.IH)
  ultimately show ?case using 3 by simp
qed

lemma collect_keys_completed:
  "collect_keys keys log_samples process_results by_doc docs r limit ws = Inr calls \<Longrightarrow>
   \<forall>c\<in>set calls. snd c = []"
proof (induction keys arbitrary: calls)
  case Nil
  then show ?case by simp
next
  case (Cons key keys)
  from Cons.prems obtain it here later where 1: "doc_iterator docs r limit ws = Inr it"
    and 2: "process_calls log_samples process_results by_doc it = Inr here"
    and 3: "collect_keys keys log_samples process_results by_doc docs r limit ws = Inr later"
    and 4: "calls = here @ later"
    by (auto split: sum.splits)
  have "\<forall>c\<in>set here. snd c = []" using 2 by (rule process_calls_completed)
  moreover have "\<forall>c\<in>set later. snd c = []" using 3 by (rule Cons.IH)
  ultimately show ?case using 4 by auto
qed

text \<open>Whatever run of the collection completes, the metric function never received a filtered response.\<close>

lemma collect_task_completed:
  "collect_task log_samples process_results insts docs r limit ws = Inr calls \<Longrightarrow>
   \<forall>c\<in>set calls. snd c = []"
  by (auto simp: collect_task_def split: list.splits dest: collect_keys_completed)

text \<open>
  C7. The instances are grouped by \<open>doc_id\<close> and each group is sorted by \<open>idx\<close>, but the
  metric function does not receive the filtered responses: when the task has a filter and
  the first document of the rank's shard has an instance, the comprehension of line 485
  reads the unbound name \<open>filter_key\<close> and the collection ends in a \<open>NameError\<close>.
\<close>

theorem filter_key_unbound:
  assumes "insts = first # others" and "filtered_resps first \<noteq> []"
    and "doc_iterator docs r limit ws = Inr ((d, doc) # rest)"
    and "i \<in> set insts" and "doc_id i = d"
  shows "collect_task log_samples process_results insts docs r limit ws = Inl (NameError ''filter_key'')"
proof -
  have "lookup_default (instances_by_doc_id insts) (fst (d, doc)) \<noteq> []"
    using group_of_instance [OF assms(4)] assms(5) by simp
  then have "process_doc log_samples process_results (instances_by_doc_id insts) (d, doc) = Inl (NameError ''filter_key'')"
    by (rule process_doc_unbound)
  then have p: "process_calls log_samples process_results (instances_by_doc_id insts) ((d, doc) # rest) = Inl (NameError ''filter_key'')"
    by simp
  obtain key keys where k: "map fst (filtered_resps first) = key # keys"
    using assms(2) by (cases "filtered_resps first") auto
  show ?thesis
    using assms(1,3) p k by (simp add: collect_task_def)
qed

theorem filter_key_unbound_witness:
  "example_instances = filtered_instance 1 2 ''c'' # tl example_instances
   \<and> filtered_resps (filtered_instance 1 2 ''c'') \<noteq> []
   \<and> doc_iterator [''doc0'', ''doc1'', ''doc2''] 1 None 2 = Inr [(1, ''doc1'')]
   \<and> filtered_instance 1 0 ''a'' \<in> set example_instances
   \<and> doc_id (filtered_instance 1 0 ''a'') = 1
   \<and> map resps (lookup_default (instances_by_doc_id example_instances) 1) = [[''a''], [''c''], [''d'']]
   \<and> collect_task True example_process example_instances [''doc0'', ''doc1'', ''doc2''] 1 None 2
       = Inl (NameError ''filter_key'')"
  using filter_key_unbound [of example_instances "filtered_instance 1 2 ''c''" "tl example_instances"
      "[''doc0'', ''doc1'', ''doc2'']" 1 None 2 1 "''doc1''" "[]" "filtered_instance 1 0 ''a''" True example_process]
  by (simp add: example_instances_def filtered_instance_def doc_iterator_def islice_def
      enumerate_eq_zip upt_conv_Cons lookup_instances_by_doc_id)

section \<open>Cross-rank reduction: never reached\<close>

text \<open>
  C3. With more than one worker the reduction block raises \<open>UnboundLocalError\<close> at line 530,
  whatever the ranks hold: no metric list is padded, gathered or freed of its padding, and
  no reduced list is produced.
\<close>

theorem vals_unbound:
  assumes "1 < ws"
  shows "gather_across_ranks ws collected = Inl (UnboundLocalError ''vals'')"
  using assms by (simp add: gather_across_ranks_def)

theorem vals_unbound_witness:
  "(1::nat) < 2 \<and> gather_across_ranks 2 [(''exact_match'', [1, 1, 0::nat])] = Inl (UnboundLocalError ''vals'')"
  using vals_unbound [of 2 "[(''exact_match'', [1, 1, 0::nat])]"] by simp

section \<open>No result on more than one rank\<close>

text \<open>
  C1. A run on more than one worker never gets past line 530: post-processing and
  reduction end in an error for every model, document set, limit and rank, so no
  aggregate is produced that could equal the single-worker one.
\<close>

theorem no_result_on_many_ranks:
  assumes "1 < ws"
  shows "\<exists>e. evaluate_postprocess log_samples process_results tasks r limit ws = Inl e"
  using assms by (simp add: evaluate_postprocess_def gather_across_ranks_def split: sum.splits)

theorem no_result_on_many_ranks_witness:
  "(1::nat) < 2
   \<and> evaluate_postprocess True example_process [(example_instances, [''doc0'', ''doc1'', ''doc2''])] 0 None 2
       = Inl (NameError ''filter_key'')
   \<and> evaluate_postprocess True example_process [(example_instances, [''doc0'', ''doc1'', ''doc2''])] 1 None 2
       = Inl (NameError ''filter_key'')
   \<and> evaluate_postprocess True example_process [(example_instances, [''doc0'', ''doc1'', ''doc2''])] 0 None 1
       = Inl (NameError ''filter_key'')
   \<and> evaluate_postprocess True example_process ([] :: (string Instance list \<times> string list) list) 0 None 2
       = Inl (UnboundLocalError ''vals'')"
  using no_result_on_many_ranks [of 2 True example_process "[(example_instances, [''doc0'', ''doc1'', ''doc2''])]" 0 None]
  by (simp add: evaluate_postprocess_def gather_across_ranks_def collect_task_def process_doc_def
      filtered_list_def example_instances_def filtered_instance_def doc_iterator_def islice_def
      enumerate_eq_zip upt_conv_Cons lookup_instances_by_doc_id)

section \<open>Group-level \<open>higher_is_better\<close>: conflicts and the shared accumulator\<close>

subsection \<open>One item\<close>

lemma step_metric_other:
  "k \<noteq> fst mh \<Longrightarrow> map_of (fst (step_metric g mh aw)) k = map_of (fst aw) k"
  by (auto simp: step_metric_def Let_def update_conv' map_add_def split: option.splits)

lemma step_metric_same:
  "map_of (fst (step_metric g mh aw)) (fst mh) =
     (case map_of (fst aw) (fst mh) of
        None \<Rightarrow> Some (snd mh)
      | Some v \<Rightarrow> if v \<noteq> None \<and> v \<noteq> snd mh then Some None else Some v)"
  by (auto simp: step_metric_def Let_def update_conv' map_add_def map_of_eq_None_iff [symmetric]
      split: option.splits)


lemma step_metric_warns:
  "map_of (fst (step_metric g mh aw)) (fst mh) = Some None \<Longrightarrow>
   map_of (fst aw) (fst mh) \<noteq> Some None \<Longrightarrow> snd mh \<noteq> None \<Longrightarrow>
   (fst mh, g) \<in> set (snd (step_metric g mh aw))"
  by (auto simp: step_metric_def Let_def update_conv' map_add_def map_of_eq_None_iff [symmetric]
      split: option.splits if_splits)




subsection \<open>A polarity, once recorded, stays or becomes \<open>None\<close>\<close>

lemma step_metric_settled:
  assumes "map_of (fst aw) m = Some h \<or> map_of (fst aw) m = Some None"
  shows "map_of (fst (step_metric g mh aw)) m = Some h \<or> map_of (fst (step_metric g mh aw)) m = Some None"
proof (cases "m = fst mh")
  case True
  then show ?thesis using assms step_metric_same [of g mh aw] by (auto split: if_splits)
next
  case False
  then show ?thesis using assms by (simp add: step_metric_other)
qed

lemma step_metric_establish:
  "map_of (fst (step_metric g (m, h) aw)) m = Some h \<or> map_of (fst (step_metric g (m, h) aw)) m = Some None"
  using step_metric_same [of g "(m, h)" aw] by (auto split: option.splits if_splits)

lemma fold_settled:
  "map_of (fst aw) m = Some h \<or> map_of (fst aw) m = Some None \<Longrightarrow>
   map_of (fst (fold (step_metric g) its aw)) m = Some h \<or> map_of (fst (fold (step_metric g) its aw)) m = Some None"
proof (induction its arbitrary: aw)
  case Nil
  then show ?case by simp
next
  case (Cons it its)
  have "map_of (fst (step_metric g it aw)) m = Some h \<or> map_of (fst (step_metric g it aw)) m = Some None"
    using Cons.prems by (rule step_metric_settled)
  then show ?case using Cons.IH [of "step_metric g it aw"] by simp
qed

lemma fold_establish:
  "(m, h) \<in> set its \<Longrightarrow>
   map_of (fst (fold (step_metric g) its aw)) m = Some h \<or> map_of (fst (fold (step_metric g) its aw)) m = Some None"
proof (induction its arbitrary: aw)
  case Nil
  then show ?case by simp
next
  case (Cons it its)
  show ?case
  proof (cases "it = (m, h)")
    case True
    have "map_of (fst (step_metric g it aw)) m = Some h \<or> map_of (fst (step_metric g it aw)) m = Some None"
      unfolding True by (rule step_metric_establish)
    then show ?thesis using fold_settled [of "step_metric g it aw" m h g its] by simp
  next
    case False
    then have "(m, h) \<in> set its" using Cons.prems by simp
    then show ?thesis using Cons.IH [of "step_metric g it aw"] by simp
  qed
qed

lemma step_task_table: "step_task g t st = Inr st' \<Longrightarrow> hib_table st' = hib_table st"
  by (auto simp: step_task_def Let_def split: option.splits)

lemma step_task_acc:
  "step_task g t st = Inr st' \<Longrightarrow> hib_table st t = Some e \<Longrightarrow>
   acc st' = fst (fold (step_metric g) (entry_items e (acc st)) (acc st, warnings st))
   \<and> warnings st' = snd (fold (step_metric g) (entry_items e (acc st)) (acc st, warnings st))"
  by (auto simp: step_task_def Let_def split: option.splits)

lemma step_task_ok: "hib_table st t \<noteq> None \<Longrightarrow> \<exists>st'. step_task g t st = Inr st'"
  by (auto simp: step_task_def Let_def split: option.splits)

lemma step_task_settled:
  assumes "step_task g t st = Inr st'" "map_of (acc st) m = Some h \<or> map_of (acc st) m = Some None"
  shows "map_of (acc st') m = Some h \<or> map_of (acc st') m = Some None"
proof -
  obtain e where e: "hib_table st t = Some e" using assms(1) by (auto simp: step_task_def split: option.splits)
  show ?thesis
    using step_task_acc [OF assms(1) e] fold_settled [of "(acc st, warnings st)" m h g "entry_items e (acc st)"] assms(2)
    by simp
qed

lemma step_task_establish:
  assumes "step_task g t st = Inr st'" "hib_table st t = Some (Leaf d)" "(m, b) \<in> set d"
  shows "map_of (acc st') m = Some (Some b) \<or> map_of (acc st') m = Some None"
proof -
  have "(m, Some b) \<in> set (entry_items (Leaf d) (acc st))"
    using assms(3) by (force simp: entry_items_def)
  then show ?thesis
    using step_task_acc [OF assms(1,2)] fold_establish [of m "Some b" "entry_items (Leaf d) (acc st)" g "(acc st, warnings st)"]
    by simp
qed

lemma step_tasks_table: "step_tasks g ts st = Inr st' \<Longrightarrow> hib_table st' = hib_table st"
proof (induction ts arbitrary: st)
  case Nil
  then show ?case by simp
next
  case (Cons t ts)
  then show ?case by (auto split: sum.splits dest: step_task_table)
qed

lemma step_tasks_settled:
  "step_tasks g ts st = Inr st' \<Longrightarrow> map_of (acc st) m = Some h \<or> map_of (acc st) m = Some None \<Longrightarrow>
   map_of (acc st') m = Some h \<or> map_of (acc st') m = Some None"
proof (induction ts arbitrary: st)
  case Nil
  then show ?case by simp
next
  case (Cons t ts)
  from Cons.prems(1) obtain st1 where 1: "step_task g t st = Inr st1" and 2: "step_tasks g ts st1 = Inr st'"
    by (auto split: sum.splits)
  show ?case using Cons.IH [OF 2] step_task_settled [OF 1 Cons.prems(2)] by blast
qed

lemma step_tasks_establish:
  "step_tasks g ts st = Inr st' \<Longrightarrow> t \<in> set ts \<Longrightarrow> hib_table st t = Some (Leaf d) \<Longrightarrow> (m, b) \<in> set d \<Longrightarrow>
   map_of (acc st') m = Some (Some b) \<or> map_of (acc st') m = Some None"
proof (induction ts arbitrary: st)
  case Nil
  then show ?case by simp
next
  case (Cons u ts)
  from Cons.prems(1) obtain st1 where 1: "step_task g u st = Inr st1" and 2: "step_tasks g ts st1 = Inr st'"
    by (auto split: sum.splits)
  show ?case
  proof (cases "u = t")
    case True
    have "map_of (acc st1) m = Some (Some b) \<or> map_of (acc st1) m = Some None"
      using step_task_establish [OF 1 [unfolded True] Cons.prems(3,4)] .
    then show ?thesis using step_tasks_settled [OF 2] by blast
  next
    case False
    then have "t \<in> set ts" using Cons.prems(2) by simp
    moreover have "hib_table st1 t = Some (Leaf d)" using step_task_table [OF 1] Cons.prems(3) by simp
    ultimately show ?thesis using Cons.IH [OF 2] Cons.prems(4) by blast
  qed
qed

lemma step_tasks_ok:
  "\<forall>t\<in>set ts. hib_table st t \<noteq> None \<Longrightarrow> \<exists>st'. step_tasks g ts st = Inr st'"
proof (induction ts arbitrary: st)
  case Nil
  then show ?case by simp
next
  case (Cons t ts)
  then obtain st1 where 1: "step_task g t st = Inr st1" using step_task_ok [of st t g] by auto
  have "\<forall>t\<in>set ts. hib_table st1 t \<noteq> None" using step_task_table [OF 1] Cons.prems by simp
  then show ?case using Cons.IH [of st1] 1 by simp
qed

lemma step_group_settled:
  assumes "step_group gt st = Inr st'" "map_of (acc st) m = Some h \<or> map_of (acc st) m = Some None"
  shows "map_of (acc st') m = Some h \<or> map_of (acc st') m = Some None"
proof (cases "snd gt = []")
  case True
  then show ?thesis using assms by (simp add: step_group_def)
next
  case False
  then obtain st1 where 1: "step_tasks (fst gt) (snd gt) st = Inr st1"
    and 2: "st' = st1\<lparr>hib_table := (hib_table st1)(fst gt \<mapsto> Shared)\<rparr>"
    using assms(1) by (auto simp: step_group_def split: sum.splits)
  show ?thesis using step_tasks_settled [OF 1 assms(2)] 2 by simp
qed

lemma step_group_establish:
  assumes "step_group gt st = Inr st'" "t \<in> set (snd gt)" "hib_table st t = Some (Leaf d)" "(m, b) \<in> set d"
  shows "map_of (acc st') m = Some (Some b) \<or> map_of (acc st') m = Some None"
proof -
  have ne: "snd gt \<noteq> []" using assms(2) by auto
  then obtain st1 where 1: "step_tasks (fst gt) (snd gt) st = Inr st1"
    and 2: "st' = st1\<lparr>hib_table := (hib_table st1)(fst gt \<mapsto> Shared)\<rparr>"
    using assms(1) by (auto simp: step_group_def split: sum.splits)
  show ?thesis using step_tasks_establish [OF 1 assms(2,3,4)] 2 by simp
qed

lemma step_group_table:
  assumes "step_group gt st = Inr st'"
  shows "hib_table st' = (if snd gt \<noteq> [] then (hib_table st)(fst gt \<mapsto> Shared) else hib_table st)"
proof (cases "snd gt = []")
  case True
  then show ?thesis using assms by (simp add: step_group_def)
next
  case False
  then obtain st1 where 1: "step_tasks (fst gt) (snd gt) st = Inr st1"
    and 2: "st' = st1\<lparr>hib_table := (hib_table st1)(fst gt \<mapsto> Shared)\<rparr>"
    using assms by (auto simp: step_group_def split: sum.splits)
  show ?thesis using step_tasks_table [OF 1] 2 False by simp
qed

lemma step_group_ok:
  assumes "\<forall>t\<in>set (snd gt). hib_table st t \<noteq> None"
  shows "\<exists>st'. step_group gt st = Inr st'"
proof -
  obtain st1 where "step_tasks (fst gt) (snd gt) st = Inr st1"
    using step_tasks_ok [OF assms] by blast
  then show ?thesis by (simp add: step_group_def)
qed

lemma step_groups_settled:
  "step_groups gts st = Inr st' \<Longrightarrow> map_of (acc st) m = Some h \<or> map_of (acc st) m = Some None \<Longrightarrow>
   map_of (acc st') m = Some h \<or> map_of (acc st') m = Some None"
proof (induction gts arbitrary: st)
  case Nil
  then show ?case by simp
next
  case (Cons gt gts)
  from Cons.prems(1) obtain st1 where 1: "step_group gt st = Inr st1" and 2: "step_groups gts st1 = Inr st'"
    by (auto split: sum.splits)
  show ?case using Cons.IH [OF 2] step_group_settled [OF 1 Cons.prems(2)] by blast
qed

lemma step_groups_establish:
  "step_groups gts st = Inr st' \<Longrightarrow> (g, subs) \<in> set gts \<Longrightarrow> t \<in> set subs \<Longrightarrow>
   hib_table st t = Some (Leaf d) \<Longrightarrow> not_a_group gts t \<Longrightarrow> (m, b) \<in> set d \<Longrightarrow>
   map_of (acc st') m = Some (Some b) \<or> map_of (acc st') m = Some None"
proof (induction gts arbitrary: st)
  case Nil
  then show ?case by simp
next
  case (Cons gt gts)
  from Cons.prems(1) obtain st1 where 1: "step_group gt st = Inr st1" and 2: "step_groups gts st1 = Inr st'"
    by (auto split: sum.splits)
  show ?case
  proof (cases "gt = (g, subs)")
    case True
    have "map_of (acc st1) m = Some (Some b) \<or> map_of (acc st1) m = Some None"
      using step_group_establish [OF 1, of t d m b] True Cons.prems(3,4,6) by simp
    then show ?thesis using step_groups_settled [OF 2] by blast
  next
    case False
    then have in_rest: "(g, subs) \<in> set gts" using Cons.prems(2) by simp
    have ng: "snd gt = [] \<or> fst gt \<noteq> t" and ng': "not_a_group gts t"
      using Cons.prems(5) by (simp_all add: not_a_group_def)
    have "hib_table st1 t = Some (Leaf d)"
      using step_group_table [OF 1] ng Cons.prems(4) by auto
    then show ?thesis using Cons.IH [OF 2 in_rest Cons.prems(3) _ ng' Cons.prems(6)] by blast
  qed
qed

lemma step_groups_ok:
  "\<forall>gt\<in>set gts. \<forall>t\<in>set (snd gt). hib_table st t \<noteq> None \<Longrightarrow> \<exists>st'. step_groups gts st = Inr st'"
proof (induction gts arbitrary: st)
  case Nil
  then show ?case by simp
next
  case (Cons gt gts)
  then obtain st1 where 1: "step_group gt st = Inr st1" using step_group_ok [of gt st] by auto
  have "\<forall>gt\<in>set gts. \<forall>t\<in>set (snd gt). hib_table st1 t \<noteq> None"
    using step_group_table [OF 1] Cons.prems by auto
  then show ?case using Cons.IH [of st1] 1 by simp
qed

lemma step_groups_keeps_shared:
  "step_groups gts st = Inr st' \<Longrightarrow> hib_table st g = Some Shared \<Longrightarrow> hib_table st' g = Some Shared"
proof (induction gts arbitrary: st)
  case Nil
  then show ?case by simp
next
  case (Cons gt gts)
  from Cons.prems(1) obtain st1 where 1: "step_group gt st = Inr st1" and 2: "step_groups gts st1 = Inr st'"
    by (auto split: sum.splits)
  have "hib_table st1 g = Some Shared" using step_group_table [OF 1] Cons.prems(2) by auto
  then show ?case using Cons.IH [OF 2] by blast
qed

lemma step_groups_shared:
  "step_groups gts st = Inr st' \<Longrightarrow> (g, subs) \<in> set gts \<Longrightarrow> subs \<noteq> [] \<Longrightarrow> hib_table st' g = Some Shared"
proof (induction gts arbitrary: st)
  case Nil
  then show ?case by simp
next
  case (Cons gt gts)
  from Cons.prems(1) obtain st1 where 1: "step_group gt st = Inr st1" and 2: "step_groups gts st1 = Inr st'"
    by (auto split: sum.splits)
  show ?case
  proof (cases "gt = (g, subs)")
    case True
    then have "hib_table st1 g = Some Shared" using step_group_table [OF 1] Cons.prems(3) by simp
    then show ?thesis using step_groups_keeps_shared [OF 2] by blast
  next
    case False
    then show ?thesis using Cons.IH [OF 2] Cons.prems(2,3) by simp
  qed
qed

subsection \<open>A \<open>None\<close> comes with a warning\<close>







lemma consolidate_ok:
  assumes "subtasks_known hib0 subtask_list"
  shows "\<exists>st. consolidate_hib hib0 subtask_list = Inr st"
proof -
  have "\<forall>gt\<in>set subtask_list. \<forall>t\<in>set (snd gt).
      hib_table \<lparr>acc = [], hib_table = (\<lambda>t. map_option Leaf (hib0 t)), warnings = []\<rparr> t \<noteq> None"
    using assms by (auto simp: subtasks_known_def list_all_iff)
  then show ?thesis unfolding consolidate_hib_def by (rule step_groups_ok)
qed

lemma consolidate_establish:
  assumes "consolidate_hib hib0 subtask_list = Inr st" "(g, subs) \<in> set subtask_list" "t \<in> set subs"
    "hib0 t = Some d" "(m, b) \<in> set d" "not_a_group subtask_list t"
  shows "map_of (acc st) m = Some (Some b) \<or> map_of (acc st) m = Some None"
  using step_groups_establish [OF assms(1) [unfolded consolidate_hib_def] assms(2,3) _ assms(6,5)] assms(4)
  by simp

lemma consolidate_recorded:
  assumes "consolidate_hib hib0 subtask_list = Inr st" "(g, subs) \<in> set subtask_list" "subs \<noteq> []"
  shows "hib_table st g = Some Shared" "recorded st g = Some (acc st)"
proof -
  show 1: "hib_table st g = Some Shared"
    using step_groups_shared [OF assms(1) [unfolded consolidate_hib_def] assms(2,3)] .
  show "recorded st g = Some (acc st)" using 1 by (simp add: recorded_def entry_items_def)
qed


lemmas hib_simps = consolidate_hib_def step_group_def step_task_def step_metric_def entry_items_def
  recorded_def example_hib_def subtasks_known_def not_a_group_def


text \<open>
  C10. The accumulator is created once and never reset: every group with subtasks is
  recorded as a reference to that one accumulator, so any two such groups hold the same
  entries, and a metric declared by a subtask of one group is among the entries recorded
  for every other group.
\<close>

theorem shared_accumulator:
  assumes "(g1, subs1) \<in> set subtask_list" and "(g2, subs2) \<in> set subtask_list"
    and "t \<in> set subs1" and "subs2 \<noteq> []"
    and "hib0 t = Some d" and "(m, b) \<in> set d"
    and "subtasks_known hib0 subtask_list" and "not_a_group subtask_list t"
  shows "\<exists>st. consolidate_hib hib0 subtask_list = Inr st
     \<and> hib_table st g1 = Some Shared \<and> hib_table st g2 = Some Shared
     \<and> recorded st g1 = Some (acc st) \<and> recorded st g2 = Some (acc st)
     \<and> m \<in> fst ` set (acc st)"
proof -
  obtain st where st: "consolidate_hib hib0 subtask_list = Inr st"
    using consolidate_ok [OF assms(7)] by blast
  have ne: "subs1 \<noteq> []" using assms(3) by auto
  have "map_of (acc st) m = Some (Some b) \<or> map_of (acc st) m = Some None"
    using consolidate_establish [OF st assms(1,3,5,6,8)] .
  then have "map_of (acc st) m \<noteq> None" by auto
  then have k: "m \<in> fst ` set (acc st)" by (simp add: map_of_eq_None_iff)
  show ?thesis
    using st k consolidate_recorded [OF st assms(1) ne] consolidate_recorded [OF st assms(2,4)] by blast
qed

theorem shared_accumulator_witness:
  "(''g1'', [''x'']) \<in> set [(''g1'', [''x'']), (''g2'', [''up''])]
   \<and> (''g2'', [''up'']) \<in> set [(''g1'', [''x'']), (''g2'', [''up''])]
   \<and> ''x'' \<in> set [''x''] \<and> [''up''] \<noteq> []
   \<and> example_hib ''x'' = Some [(''f1'', True)] \<and> (''f1'', True) \<in> set [(''f1'', True)]
   \<and> subtasks_known example_hib [(''g1'', [''x'']), (''g2'', [''up''])]
   \<and> not_a_group [(''g1'', [''x'']), (''g2'', [''up''])] ''x''
   \<and> (\<exists>st. consolidate_hib example_hib [(''g1'', [''x'']), (''g2'', [''up''])] = Inr st
         \<and> recorded st ''g1'' = Some [(''f1'', Some True), (''acc'', Some True)]
         \<and> recorded st ''g2'' = Some [(''f1'', Some True), (''acc'', Some True)])"
  using shared_accumulator [of "''g1''" "[''x'']" "[(''g1'', [''x'']), (''g2'', [''up''])]" "''g2''" "[''up'']"
      "''x''" example_hib "[(''f1'', True)]" "''f1''" True]
  by (simp add: hib_simps Let_def)

end
